theory Spec2Isabelle
  imports Main "HOL-Library.AList"
begin

section \<open>Career Pathfinder backend: catalog and scoring engine of main.py\<close>

subsection \<open>Data model\<close>

text \<open>
  Python's \<open>int\<close> is unbounded, so ids and scores are \<^typ>\<open>int\<close>. Category codes are the
  one-letter strings of the source. A dictionary whose iteration order matters (\<open>scores\<close>
  is sorted with a stable sort) is an association list in insertion order.
\<close>

datatype error =
    HTTPException (status_code: int) (detail: string)
  | KeyError string
  | IndexError

record Answer =
  question_id :: int
  choice :: string

record AssessmentRequest =
  name :: "string option"
  email :: "string option"
  answers :: "Answer list"

text \<open>One entry of \<open>QUESTIONS\<close>: the keys \<open>id\<close>, \<open>text\<close>, \<open>A\<close>, \<open>B\<close>, \<open>type\<close>.\<close>

record Question =
  q_id :: int
  q_text :: string
  q_A :: string
  q_B :: string
  q_type :: string

text \<open>The record handed to \<open>create_document\<close>.\<close>

record document =
  d_name :: "string option"
  d_email :: "string option"
  d_scores :: "(string \<times> int) list"
  d_top_types :: "string list"
  d_careers :: "string list"
  d_summary :: string

text \<open>The dictionary returned by \<open>assess\<close>; \<open>id'\<close> is its key \<open>id\<close> (\<open>None\<close> as in Python).\<close>

record AssessmentResponse =
  id' :: "string option"
  scores :: "(string \<times> int) list"
  top_types :: "string list"
  careers :: "string list"
  summary :: string

text \<open>JSON-like values, for the payload of the questions endpoint.\<close>

datatype pyval =
    PInt int
  | PStr string
  | PDict "(string \<times> pyval) list"

subsection \<open>Static tables\<close>

definition QUESTIONS :: "Question list" where
  "QUESTIONS = [
    \<lparr>q_id = 1, q_text = ''I enjoy building or fixing things with my hands.'', q_A = ''Agree'', q_B = ''Disagree'', q_type = ''R''\<rparr>,
    \<lparr>q_id = 2, q_text = ''I like working with tools or machines.'', q_A = ''Agree'', q_B = ''Disagree'', q_type = ''R''\<rparr>,
    \<lparr>q_id = 3, q_text = ''I enjoy solving math or science problems.'', q_A = ''Agree'', q_B = ''Disagree'', q_type = ''I''\<rparr>,
    \<lparr>q_id = 4, q_text = ''I like analyzing data and figuring out how things work.'', q_A = ''Agree'', q_B = ''Disagree'', q_type = ''I''\<rparr>,
    \<lparr>q_id = 5, q_text = ''I like to create art, music, or write.'', q_A = ''Agree'', q_B = ''Disagree'', q_type = ''A''\<rparr>,
    \<lparr>q_id = 6, q_text = ''I prefer unstructured tasks where I can be original.'', q_A = ''Agree'', q_B = ''Disagree'', q_type = ''A''\<rparr>,
    \<lparr>q_id = 7, q_text = ''I enjoy helping people and improving their lives.'', q_A = ''Agree'', q_B = ''Disagree'', q_type = ''S''\<rparr>,
    \<lparr>q_id = 8, q_text = ''I like teaching, counseling, or caring roles.'', q_A = ''Agree'', q_B = ''Disagree'', q_type = ''S''\<rparr>,
    \<lparr>q_id = 9, q_text = ''I like leading projects and persuading others.'', q_A = ''Agree'', q_B = ''Disagree'', q_type = ''E''\<rparr>,
    \<lparr>q_id = 10, q_text = ''I enjoy business, sales, or entrepreneurship.'', q_A = ''Agree'', q_B = ''Disagree'', q_type = ''E''\<rparr>,
    \<lparr>q_id = 11, q_text = ''I prefer organizing information and keeping things orderly.'', q_A = ''Agree'', q_B = ''Disagree'', q_type = ''C''\<rparr>,
    \<lparr>q_id = 12, q_text = ''I enjoy working with data, records, and details.'', q_A = ''Agree'', q_B = ''Disagree'', q_type = ''C''\<rparr>
  ]"

definition CAREER_MAP :: "(string \<times> string list) list" where
  "CAREER_MAP = [
    (''R'', [''Mechanical Engineer'', ''Electrician'', ''Carpenter'', ''Automotive Technician'']),
    (''I'', [''Data Scientist'', ''Research Analyst'', ''Software Developer'', ''Biologist'']),
    (''A'', [''Graphic Designer'', ''Writer'', ''Musician'', ''UX Designer'']),
    (''S'', [''Teacher'', ''Nurse'', ''Social Worker'', ''Therapist'']),
    (''E'', [''Marketing Manager'', ''Sales Representative'', ''Entrepreneur'', ''Product Manager'']),
    (''C'', [''Accountant'', ''Operations Coordinator'', ''Data Entry Specialist'', ''Admin Assistant''])
  ]"

definition SUMMARY_BLURBS :: "(string \<times> string) list" where
  "SUMMARY_BLURBS = [
    (''R'', ''Hands-on, practical, and mechanical. You enjoy building, fixing, and working with tools.''),
    (''I'', ''Analytical and curious. You enjoy research, problem-solving, and understanding how things work.''),
    (''A'', ''Creative and expressive. You value originality and enjoy artistic or design-focused tasks.''),
    (''S'', ''Supportive and people-oriented. You find meaning in helping and teaching others.''),
    (''E'', ''Persuasive and leadership-driven. You thrive in business, sales, and leading initiatives.''),
    (''C'', ''Organized and detail-focused. You keep systems running smoothly and accurately.'')
  ]"

subsection \<open>The questions endpoint\<close>

text \<open>
  \<open>get_questions\<close> builds one dictionary per catalog entry, with the keys \<open>id\<close>, \<open>text\<close>
  and \<open>options\<close>, in the order of \<open>QUESTIONS\<close>.
\<close>

definition get_questions :: "(string \<times> pyval) list list" where
  "get_questions =
     map (\<lambda>q. [(''id'', PInt (q_id q)),
               (''text'', PStr (q_text q)),
               (''options'', PDict [(''A'', PStr (q_A q)), (''B'', PStr (q_B q))])])
         QUESTIONS"

subsection \<open>Python primitives used by \<open>assess\<close>\<close>

text \<open>Decimal rendering of an integer, as an f-string does it.\<close>

definition digit_char :: "nat \<Rightarrow> char" where
  "digit_char n = ''0123456789'' ! n"

function str_nat :: "nat \<Rightarrow> string" where
  "str_nat n = (if n < 10 then [digit_char n] else str_nat (n div 10) @ [digit_char (n mod 10)])"
  by pat_completeness auto
termination
  by (relation "measure id") auto

declare str_nat.simps [simp del]

definition str_int :: "int \<Rightarrow> string" where
  "str_int i = (if i < 0 then ''-'' @ str_nat (nat (- i)) else str_nat (nat i))"

text \<open>\<open>sep.join(parts)\<close>.\<close>

fun join :: "string \<Rightarrow> string list \<Rightarrow> string" where
  "join sep [] = []"
| "join sep [p] = p"
| "join sep (p # p' # ps) = p @ sep @ join sep (p' # ps)"

text \<open>
  \<open>sorted(items, key=..., reverse=True)\<close>: Python's sort is stable also when reversed
  (items with equal keys keep their original order), so it is the stable insertion sort
  on the negated key.
\<close>

definition sorted_reverse :: "('a \<Rightarrow> int) \<Rightarrow> 'a list \<Rightarrow> 'a list" where
  "sorted_reverse key xs = sort_key (\<lambda>x. - key x) xs"

text \<open>\<open>d[k] += 1\<close>: the key keeps its position; a missing key raises.\<close>

definition dict_incr :: "(string \<times> int) list \<Rightarrow> string \<Rightarrow> error + (string \<times> int) list" where
  "dict_incr d k =
     (case map_of d k of
        None \<Rightarrow> Inl (KeyError k)
      | Some v \<Rightarrow> Inr (AList.update k (v + 1) d))"

text \<open>\<open>d[k]\<close> and \<open>d.get(k, default)\<close>.\<close>

definition dict_item :: "(string \<times> 'v) list \<Rightarrow> string \<Rightarrow> error + 'v" where
  "dict_item d k = (case map_of d k of None \<Rightarrow> Inl (KeyError k) | Some v \<Rightarrow> Inr v)"

definition dict_get :: "(string \<times> 'v) list \<Rightarrow> string \<Rightarrow> 'v \<Rightarrow> 'v" where
  "dict_get d k dflt = (case map_of d k of None \<Rightarrow> dflt | Some v \<Rightarrow> v)"

subsection \<open>The scoring engine\<close>

text \<open>
  \<open>q_index = {q["id"]: q for q in QUESTIONS}\<close>: a later entry with the same id would
  replace an earlier one.
\<close>

definition q_index :: "int \<rightharpoonup> Question" where
  "q_index = fold (\<lambda>q m. m(q_id q \<mapsto> q)) QUESTIONS Map.empty"

text \<open>
  The loop over \<open>req.answers\<close> (lines 77 to 84). Every question dictionary is non-empty,
  so \<open>not q\<close> holds exactly when the lookup gave \<open>None\<close>.
\<close>

fun tally :: "Answer list \<Rightarrow> (string \<times> int) list \<Rightarrow> error + (string \<times> int) list" where
  "tally [] sc = Inr sc"
| "tally (ans # rest) sc =
     (case q_index (question_id ans) of
        None \<Rightarrow>
          Inl (HTTPException 400 (''Invalid question id: '' @ str_int (question_id ans)))
      | Some q \<Rightarrow>
          if choice ans \<notin> {''A'', ''B''} then
            Inl (HTTPException 400 (''Choice must be '' @ [CHR 0x27] @ ''A'' @ [CHR 0x27]
                                     @ '' or '' @ [CHR 0x27] @ ''B'' @ [CHR 0x27]))
          else if choice ans = ''A'' then
            (case dict_incr sc (q_type q) of
               Inl e \<Rightarrow> Inl e
             | Inr sc' \<Rightarrow> tally rest sc')
          else tally rest sc)"

text \<open>The two nested loops that collect the suggested careers (lines 92 to 96).\<close>

fun add_careers :: "string list \<Rightarrow> string list \<Rightarrow> string list" where
  "add_careers [] suggested = suggested"
| "add_careers (c # cs) suggested =
     add_careers cs (if c \<notin> set suggested then suggested @ [c] else suggested)"

fun suggest :: "string list \<Rightarrow> string list \<Rightarrow> string list" where
  "suggest [] suggested = suggested"
| "suggest (t # ts) suggested =
     suggest ts (add_careers (take 3 (dict_get CAREER_MAP t [])) suggested)"

text \<open>\<open>[SUMMARY_BLURBS[t] for t in top_types]\<close>.\<close>

fun summary_parts :: "string list \<Rightarrow> error + string list" where
  "summary_parts [] = Inr []"
| "summary_parts (t # ts) =
     (case dict_item SUMMARY_BLURBS t of
        Inl e \<Rightarrow> Inl e
      | Inr b \<Rightarrow> (case summary_parts ts of Inl e \<Rightarrow> Inl e | Inr bs \<Rightarrow> Inr (b # bs)))"

text \<open>
  Lines 87 to 89: the ranking and the selection of the top types. \<open>sorted_types[0]\<close>
  raises on an empty list.
\<close>

definition select_top :: "(string \<times> int) list \<Rightarrow> error + string list" where
  "select_top sc =
     (let sorted_types = sorted_reverse snd sc in
      case sorted_types of
        [] \<Rightarrow> Inl IndexError
      | (t0, max_score) # _ \<Rightarrow>
          let cand = take 2 (map fst (filter (\<lambda>(t, s). s = max_score \<and> s > 0) sorted_types))
          in Inr (if cand = [] then [t0] else cand))"

text \<open>
  \<open>assess\<close>. The persistence collaborator \<open>create_document\<close> lives outside the file; it
  is a parameter that either raises (\<open>Inl\<close>) or returns the identifier of the stored
  document, and it is assumed not to mutate the values it is given. An exception of the
  collaborator is caught and leaves \<open>doc_id = None\<close>.
\<close>

definition assess ::
  "(string \<Rightarrow> document \<Rightarrow> 'e + string) \<Rightarrow> AssessmentRequest \<Rightarrow> error + AssessmentResponse" where
  "assess create_document req =
     (case tally (answers req) (map (\<lambda>k. (k, 0)) [''R'', ''I'', ''A'', ''S'', ''E'', ''C'']) of
        Inl e \<Rightarrow> Inl e
      | Inr sc \<Rightarrow>
         (case select_top sc of
            Inl e \<Rightarrow> Inl e
          | Inr tops \<Rightarrow>
             let suggested = suggest tops [] in
             (case summary_parts tops of
                Inl e \<Rightarrow> Inl e
              | Inr parts \<Rightarrow>
                 let summ = join '' '' parts;
                     doc_id =
                       (case create_document ''assessmentresult''
                               \<lparr>d_name = name req, d_email = email req, d_scores = sc,
                                d_top_types = tops, d_careers = suggested, d_summary = summ\<rparr> of
                          Inl ex \<Rightarrow> None
                        | Inr i \<Rightarrow> Some i)
                 in Inr \<lparr>id' = doc_id, scores = sc, top_types = tops,
                         careers = suggested, summary = summ\<rparr>)))"

section \<open>Specification-level definitions\<close>

text \<open>The canonical category order of the specification.\<close>

definition canonical_order :: "string list" where
  "canonical_order = [''R'', ''I'', ''A'', ''S'', ''E'', ''C'']"

text \<open>A question id is in the catalog when some entry of \<open>QUESTIONS\<close> has it.\<close>

definition in_catalog :: "int \<Rightarrow> bool" where
  "in_catalog i = (i \<in> set (map q_id QUESTIONS))"

text \<open>An answer is offending when its id is unknown or its choice is neither "A" nor "B".\<close>

definition offending :: "Answer \<Rightarrow> bool" where
  "offending a = (\<not> in_catalog (question_id a) \<or> (choice a \<noteq> ''A'' \<and> choice a \<noteq> ''B''))"

text \<open>In a valid answer list every answer has a catalog id and the choice "A" or "B".\<close>

definition valid_answers :: "Answer list \<Rightarrow> bool" where
  "valid_answers as =
     list_all (\<lambda>a. in_catalog (question_id a) \<and> (choice a = ''A'' \<or> choice a = ''B'')) as"

text \<open>
  The number of answers, counted with multiplicity, whose choice is "A" and whose question
  has category \<open>c\<close>.
\<close>

definition agree_count :: "string \<Rightarrow> Answer list \<Rightarrow> int" where
  "agree_count c as =
     int (length (filter (\<lambda>a. choice a = ''A'' \<and> map_option q_type (q_index (question_id a)) = Some c) as))"

text \<open>
  The two client errors, and the error an offending answer is expected to raise: the
  unknown id is reported before the invalid choice.
\<close>

definition invalid_question_id :: "int \<Rightarrow> error" where
  "invalid_question_id i = HTTPException 400 (''Invalid question id: '' @ str_int i)"

definition invalid_choice :: error where
  "invalid_choice = HTTPException 400 (''Choice must be '' @ [CHR 0x27] @ ''A'' @ [CHR 0x27]
                                     @ '' or '' @ [CHR 0x27] @ ''B'' @ [CHR 0x27])"

definition answer_error :: "Answer \<Rightarrow> error" where
  "answer_error a =
     (if \<not> in_catalog (question_id a) then invalid_question_id (question_id a) else invalid_choice)"

text \<open>The score of a category in a score table.\<close>

definition score_of :: "(string \<times> int) list \<Rightarrow> string \<Rightarrow> int" where
  "score_of sc c = (case map_of sc c of Some v \<Rightarrow> v | None \<Rightarrow> 0)"

text \<open>
  The selection rule in the specification's words: the categories whose score is the
  maximum and positive, in canonical order, at most the first two; the single category R
  when no score is positive.
\<close>

definition spec_top_types :: "(string \<times> int) list \<Rightarrow> string list" where
  "spec_top_types sc =
     (let max_score = Max (set (map (score_of sc) canonical_order)) in
      if list_ex (\<lambda>c. score_of sc c > 0) canonical_order
      then take 2 (filter (\<lambda>c. score_of sc c = max_score \<and> score_of sc c > 0) canonical_order)
      else [''R''])"

text \<open>Removal of duplicates in which the first occurrence of an element stays.\<close>

fun first_seen :: "'a list \<Rightarrow> 'a list" where
  "first_seen [] = []"
| "first_seen (x # xs) = x # filter (\<lambda>y. y \<noteq> x) (first_seen xs)"

text \<open>Concatenation in which every element after the first is preceded by one space.\<close>

fun spaced :: "string list \<Rightarrow> string" where
  "spaced [] = []"
| "spaced (b # bs) = b @ concat (map (\<lambda>b'. '' '' @ b') bs)"

text \<open>The score table before the loop: every category at 0.\<close>

definition initial_scores :: "(string \<times> int) list" where
  "initial_scores = map (\<lambda>k. (k, 0)) canonical_order"

subsection \<open>Example requests and collaborators\<close>

text \<open>
  A persistence collaborator that succeeds, one that raises, and concrete requests with
  the responses \<open>assess\<close> gives them.
\<close>

definition store_ok :: "string \<Rightarrow> document \<Rightarrow> string + string" where
  "store_ok c d = Inr ''doc1''"

definition store_down :: "string \<Rightarrow> document \<Rightarrow> string + string" where
  "store_down c d = Inl ''store unreachable''"

definition req_tie :: AssessmentRequest where
  "req_tie = \<lparr>name = Some ''Ada'', email = None,
      answers = [\<lparr>question_id = 1, choice = ''A''\<rparr>, \<lparr>question_id = 2, choice = ''A''\<rparr>,
                 \<lparr>question_id = 3, choice = ''A''\<rparr>, \<lparr>question_id = 4, choice = ''A''\<rparr>,
                 \<lparr>question_id = 5, choice = ''B''\<rparr>]\<rparr>"

definition res_tie :: AssessmentResponse where
  "res_tie = \<lparr>id' = Some ''doc1'',
     scores = [(''R'', 2), (''I'', 2), (''A'', 0), (''S'', 0), (''E'', 0), (''C'', 0)],
     top_types = [''R'', ''I''],
     careers = [''Mechanical Engineer'', ''Electrician'', ''Carpenter'',
                ''Data Scientist'', ''Research Analyst'', ''Software Developer''],
     summary = ''Hands-on, practical, and mechanical. You enjoy building, fixing, and working with tools. Analytical and curious. You enjoy research, problem-solving, and understanding how things work.''\<rparr>"

definition req_all_B :: AssessmentRequest where
  "req_all_B = \<lparr>name = None, email = None,
      answers = map (\<lambda>i. \<lparr>question_id = i, choice = ''B''\<rparr>) [1, 2, 3, 4, 5, 6, 7, 8, 9, 10, 11, 12]\<rparr>"

definition res_all_B :: AssessmentResponse where
  "res_all_B = \<lparr>id' = Some ''doc1'',
     scores = [(''R'', 0), (''I'', 0), (''A'', 0), (''S'', 0), (''E'', 0), (''C'', 0)],
     top_types = [''R''],
     careers = [''Mechanical Engineer'', ''Electrician'', ''Carpenter''],
     summary = ''Hands-on, practical, and mechanical. You enjoy building, fixing, and working with tools.''\<rparr>"

definition req_bad :: AssessmentRequest where
  "req_bad = \<lparr>name = None, email = None,
      answers = [\<lparr>question_id = 1, choice = ''A''\<rparr>, \<lparr>question_id = 999, choice = ''C''\<rparr>,
                 \<lparr>question_id = 2, choice = ''C''\<rparr>]\<rparr>"

definition req_bad_choice :: AssessmentRequest where
  "req_bad_choice = \<lparr>name = None, email = None,
      answers = [\<lparr>question_id = 1, choice = ''A''\<rparr>, \<lparr>question_id = 2, choice = ''a''\<rparr>,
                 \<lparr>question_id = 0, choice = ''B''\<rparr>]\<rparr>"

definition req_thirteen :: AssessmentRequest where
  "req_thirteen = \<lparr>name = None, email = None,
      answers = replicate 13 \<lparr>question_id = 1, choice = ''A''\<rparr>\<rparr>"

definition res_thirteen :: AssessmentResponse where
  "res_thirteen = \<lparr>id' = Some ''doc1'',
     scores = [(''R'', 13), (''I'', 0), (''A'', 0), (''S'', 0), (''E'', 0), (''C'', 0)],
     top_types = [''R''],
     careers = [''Mechanical Engineer'', ''Electrician'', ''Carpenter''],
     summary = ''Hands-on, practical, and mechanical. You enjoy building, fixing, and working with tools.''\<rparr>"

definition req_twice :: AssessmentRequest where
  "req_twice = \<lparr>name = None, email = None,
      answers = [\<lparr>question_id = 1, choice = ''A''\<rparr>, \<lparr>question_id = 1, choice = ''A''\<rparr>]\<rparr>"

definition res_twice :: AssessmentResponse where
  "res_twice = \<lparr>id' = Some ''doc1'',
     scores = [(''R'', 2), (''I'', 0), (''A'', 0), (''S'', 0), (''E'', 0), (''C'', 0)],
     top_types = [''R''],
     careers = [''Mechanical Engineer'', ''Electrician'', ''Carpenter''],
     summary = ''Hands-on, practical, and mechanical. You enjoy building, fixing, and working with tools.''\<rparr>"

section \<open>Auxiliary lemmas\<close>

lemmas eval_defs = assess_def q_index_def QUESTIONS_def dict_incr_def select_top_def
  sorted_reverse_def dict_get_def dict_item_def CAREER_MAP_def SUMMARY_BLURBS_def
  store_ok_def store_down_def

lemma fold_upd_lookup:
  "fold (\<lambda>q m. m(f q \<mapsto> q)) qs m i = Some q \<Longrightarrow> m i = Some q \<or> (q \<in> set qs \<and> f q = i)"
proof (induction qs arbitrary: m)
  case Nil
  then show ?case by simp
next
  case (Cons a qs)
  from Cons.prems have "fold (\<lambda>q m. m(f q \<mapsto> q)) qs (m(f a \<mapsto> a)) i = Some q"
    by (simp only: fold_simps o_apply)
  from Cons.IH [OF this] show ?case
    by (auto split: if_splits)
qed

lemma fold_upd_dom:
  "dom (fold (\<lambda>q m. m(f q \<mapsto> q)) qs m) = dom m \<union> f ` set qs"
  by (induction qs arbitrary: m) auto

lemma q_index_Some: "q_index i = Some q \<Longrightarrow> q \<in> set QUESTIONS \<and> q_id q = i"
  using fold_upd_lookup [of q_id QUESTIONS Map.empty i q] by (simp add: q_index_def)

lemma q_index_None: "q_index i = None \<longleftrightarrow> \<not> in_catalog i"
  using fold_upd_dom [of q_id QUESTIONS Map.empty]
  by (auto simp: q_index_def in_catalog_def domIff)

lemma q_type_canonical: "q \<in> set QUESTIONS \<Longrightarrow> q_type q \<in> set canonical_order"
  by (auto simp: QUESTIONS_def canonical_order_def)

lemma q_index_type: "q_index i = Some q \<Longrightarrow> q_type q \<in> set canonical_order"
  by (simp add: q_index_Some q_type_canonical)

lemma update_keys_present:
  "map_of d k = Some v \<Longrightarrow> map fst (AList.update k w d) = map fst d"
  by (induction d) (auto split: if_splits)

lemma update_sum_present:
  "map_of d k = Some v \<Longrightarrow> sum_list (map snd (AList.update k (v + 1) d)) = sum_list (map snd d) + (1::int)"
  by (induction d) (auto split: if_splits)

lemma dict_incr_Inr:
  "dict_incr d k = Inr d' \<longleftrightarrow> (\<exists>v. map_of d k = Some v \<and> d' = AList.update k (v + 1) d)"
  by (auto simp: dict_incr_def split: option.splits)

lemma dict_incr_present:
  "k \<in> set (map fst d) \<Longrightarrow> \<exists>v. dict_incr d k = Inr (AList.update k (v + 1) d) \<and> map_of d k = Some v"
  by (cases "map_of d k") (auto simp: dict_incr_def map_of_eq_None_iff)

lemma tally_Cons_Inr:
  assumes "tally (a # rest) sc = Inr sc'"
  shows "\<exists>q. q_index (question_id a) = Some q \<and> (choice a = ''A'' \<or> choice a = ''B'') \<and>
           (if choice a = ''A''
            then \<exists>v. map_of sc (q_type q) = Some v \<and>
                     tally rest (AList.update (q_type q) (v + 1) sc) = Inr sc'
            else tally rest sc = Inr sc')"
  using assms by (auto simp: dict_incr_def split: option.splits if_splits sum.splits)

lemma tally_keys: "tally as sc = Inr sc' \<Longrightarrow> map fst sc' = map fst sc"
proof (induction as arbitrary: sc)
  case Nil
  then show ?case by simp
next
  case (Cons a rest)
  from tally_Cons_Inr [OF Cons.prems] Cons.IH show ?case
    by (auto simp: update_keys_present split: if_splits)
qed

lemma tally_sum:
  "tally as sc = Inr sc' \<Longrightarrow>
     sum_list (map snd sc') = sum_list (map snd sc) + int (length (filter (\<lambda>a. choice a = ''A'') as))"
proof (induction as arbitrary: sc)
  case Nil
  then show ?case by simp
next
  case (Cons a rest)
  from tally_Cons_Inr [OF Cons.prems] obtain q where
    q: "q_index (question_id a) = Some q" and
    step: "if choice a = ''A''
           then \<exists>v. map_of sc (q_type q) = Some v \<and>
                    tally rest (AList.update (q_type q) (v + 1) sc) = Inr sc'
           else tally rest sc = Inr sc'"
    by blast
  show ?case
  proof (cases "choice a = ''A''")
    case True
    with step obtain v where v: "map_of sc (q_type q) = Some v"
      and t: "tally rest (AList.update (q_type q) (v + 1) sc) = Inr sc'"
      by auto
    from Cons.IH [OF t] update_sum_present [OF v] True show ?thesis
      by simp
  next
    case False
    with step have "tally rest sc = Inr sc'" by simp
    from Cons.IH [OF this] False show ?thesis
      by simp
  qed
qed

lemma tally_lookup:
  "tally as sc = Inr sc' \<Longrightarrow> map_of sc' c = map_option (\<lambda>v. v + agree_count c as) (map_of sc c)"
proof (induction as arbitrary: sc)
  case Nil
  then show ?case by (simp add: agree_count_def option.map_ident)
next
  case (Cons a rest)
  from tally_Cons_Inr [OF Cons.prems] obtain q where
    q: "q_index (question_id a) = Some q" and
    step: "if choice a = ''A''
           then \<exists>v. map_of sc (q_type q) = Some v \<and>
                    tally rest (AList.update (q_type q) (v + 1) sc) = Inr sc'
           else tally rest sc = Inr sc'"
    by blast
  show ?case
  proof (cases "choice a = ''A''")
    case True
    with step obtain v where v: "map_of sc (q_type q) = Some v"
      and t: "tally rest (AList.update (q_type q) (v + 1) sc) = Inr sc'"
      by auto
    from Cons.IH [OF t] v q True show ?thesis
      by (auto simp: update_conv' agree_count_def)
  next
    case False
    with step have "tally rest sc = Inr sc'" by simp
    from Cons.IH [OF this] False show ?thesis
      by (simp add: agree_count_def)
  qed
qed

lemma tally_valid: "tally as sc = Inr sc' \<Longrightarrow> a \<in> set as \<Longrightarrow> \<not> offending a"
proof (induction as arbitrary: sc)
  case Nil
  then show ?case by simp
next
  case (Cons b rest)
  from tally_Cons_Inr [OF Cons.prems(1)] Cons.IH Cons.prems(2) show ?case
    by (auto simp: offending_def q_index_None [symmetric] split: if_splits)
qed

lemma tally_Cons_ok:
  assumes "\<not> offending a" and "set canonical_order \<subseteq> set (map fst sc)"
  shows "\<exists>sc1. tally (a # rest) sc = tally rest sc1 \<and> map fst sc1 = map fst sc"
proof -
  from assms(1) obtain q where q: "q_index (question_id a) = Some q"
    by (auto simp: offending_def q_index_None [symmetric])
  from assms(1) have ch: "choice a = ''A'' \<or> choice a = ''B''"
    by (auto simp: offending_def)
  from q_index_type [OF q] assms(2) have "q_type q \<in> set (map fst sc)" by blast
  from dict_incr_present [OF this] obtain v where
    v: "dict_incr sc (q_type q) = Inr (AList.update (q_type q) (v + 1) sc)"
    and mv: "map_of sc (q_type q) = Some v" by blast
  show ?thesis
  proof (cases "choice a = ''A''")
    case True
    with q v have "tally (a # rest) sc = tally rest (AList.update (q_type q) (v + 1) sc)"
      by simp
    with mv show ?thesis by (metis update_keys_present)
  next
    case False
    with ch q have "tally (a # rest) sc = tally rest sc" by simp
    then show ?thesis by blast
  qed
qed

lemma tally_Cons_offending:
  "offending a \<Longrightarrow> tally (a # rest) sc = Inl (answer_error a)"
  by (auto simp: offending_def answer_error_def invalid_question_id_def invalid_choice_def
        q_index_None [symmetric] split: option.splits)

lemma tally_fails:
  "find offending as = Some a \<Longrightarrow> set canonical_order \<subseteq> set (map fst sc) \<Longrightarrow>
     tally as sc = Inl (answer_error a)"
proof (induction as arbitrary: sc)
  case Nil
  then show ?case by simp
next
  case (Cons b rest)
  show ?case
  proof (cases "offending b")
    case True
    with Cons.prems(1) have "b = a" by simp
    with True show ?thesis by (simp only: tally_Cons_offending)
  next
    case False
    with Cons.prems(1) have f: "find offending rest = Some a" by simp
    from tally_Cons_ok [OF False Cons.prems(2)] obtain sc1 where
      "tally (b # rest) sc = tally rest sc1" and "map fst sc1 = map fst sc" by blast
    with Cons.IH [OF f, of sc1] Cons.prems(2) show ?thesis by simp
  qed
qed

lemma tally_succeeds:
  "find offending as = None \<Longrightarrow> set canonical_order \<subseteq> set (map fst sc) \<Longrightarrow>
     \<exists>sc'. tally as sc = Inr sc'"
proof (induction as arbitrary: sc)
  case Nil
  then show ?case by simp
next
  case (Cons b rest)
  from Cons.prems(1) have nb: "\<not> offending b" and f: "find offending rest = None"
    by (auto split: if_splits)
  from tally_Cons_ok [OF nb Cons.prems(2)] obtain sc1 where
    "tally (b # rest) sc = tally rest sc1" and "map fst sc1 = map fst sc" by blast
  with Cons.IH [OF f, of sc1] Cons.prems(2) show ?case by simp
qed

lemma sorted_reverse_set: "set (sorted_reverse key xs) = set xs"
  by (simp add: sorted_reverse_def)

lemma sorted_reverse_length: "length (sorted_reverse key xs) = length xs"
  by (simp add: sorted_reverse_def)

lemma sorted_reverse_hd_max:
  assumes "sorted_reverse key xs = y # ys" and "x \<in> set xs"
  shows "key x \<le> key y"
proof -
  have "sorted (map (\<lambda>x. - key x) (sorted_reverse key xs))"
    by (simp add: sorted_reverse_def)
  with assms(1) have "\<forall>z\<in>set ys. key z \<le> key y" by simp
  moreover from assms have "x = y \<or> x \<in> set ys"
    using sorted_reverse_set [of key xs] by auto
  ultimately show ?thesis by auto
qed

lemma sorted_reverse_stable:
  "filter (\<lambda>x. key x = k) (sorted_reverse key xs) = filter (\<lambda>x. key x = k) xs"
  using sort_key_stable [of "\<lambda>x. - key x" "- k" xs] by (simp add: sorted_reverse_def)

lemma sorted_reverse_const:
  assumes "\<forall>x\<in>set xs. key x = k"
  shows "sorted_reverse key xs = xs"
proof -
  have "filter (\<lambda>x. key x = k) (sorted_reverse key xs) = sorted_reverse key xs"
    using assms by (simp add: sorted_reverse_set)
  moreover have "filter (\<lambda>x. key x = k) xs = xs"
    using assms by simp
  ultimately show ?thesis using sorted_reverse_stable [of key k xs] by simp
qed

lemma score_of_key:
  "distinct (map fst sc) \<Longrightarrow> (c, v) \<in> set sc \<Longrightarrow> score_of sc c = v"
  by (simp add: score_of_def)

lemma filter_by_score:
  "distinct (map fst sc) \<Longrightarrow>
     map fst (filter (\<lambda>x. P (snd x)) sc) = filter (\<lambda>c. P (score_of sc c)) (map fst sc)"
proof -
  assume d: "distinct (map fst sc)"
  have "map fst (filter (\<lambda>x. P (snd x)) sc) = map fst (filter (\<lambda>x. P (score_of sc (fst x))) sc)"
    by (rule arg_cong [where f = "map fst"], rule filter_cong)
       (auto simp: score_of_key [OF d])
  then show ?thesis by (simp add: filter_map o_def)
qed

lemma scores_image:
  "distinct (map fst sc) \<Longrightarrow> set (map (score_of sc) (map fst sc)) = snd ` set sc"
  by (force simp: score_of_key)

lemma select_top_spec:
  assumes keys: "map fst sc = canonical_order" and nonneg: "\<forall>x\<in>set sc. 0 \<le> snd x"
  shows "select_top sc = Inr (spec_top_types sc)"
proof -
  have d: "distinct (map fst sc)"
    by (simp add: keys canonical_order_def)
  have "length (sorted_reverse snd sc) = 6"
    using arg_cong [OF keys, of length] by (simp add: sorted_reverse_length canonical_order_def)
  then obtain t0 m rest where srt: "sorted_reverse snd sc = (t0, m) # rest"
    by (cases "sorted_reverse snd sc") auto
  have mem: "(t0, m) \<in> set sc"
    using sorted_reverse_set [of snd sc] srt by auto
  have ub: "\<forall>x\<in>set sc. snd x \<le> m"
    using sorted_reverse_hd_max [OF srt] by auto
  have "t0 \<in> set (map fst sc)"
    using mem by force
  then have t0: "t0 \<in> set canonical_order"
    by (simp only: keys)
  have sc_t0: "score_of sc t0 = m"
    using score_of_key [OF d mem] .
  have img: "set (map (score_of sc) canonical_order) = snd ` set sc"
    using scores_image [OF d] by (simp only: keys)
  have mx: "Max (set (map (score_of sc) canonical_order)) = m"
    unfolding img using ub mem by (intro Max_eqI) force+
  then have mx': "Max (score_of sc ` set canonical_order) = m"
    by simp
  have sel: "select_top sc =
      Inr (let cand = take 2 (map fst (filter (\<lambda>x. snd x = m \<and> snd x > 0) (sorted_reverse snd sc)))
           in if cand = [] then [t0] else cand)"
    by (simp add: select_top_def srt case_prod_unfold del: filter.simps)
  show ?thesis
  proof (cases "0 < m")
    case True
    have "filter (\<lambda>x. snd x = m \<and> snd x > 0) (sorted_reverse snd sc)
            = filter (\<lambda>x. snd x = m) (sorted_reverse snd sc)"
      using True by (intro filter_cong) auto
    also have "\<dots> = filter (\<lambda>x. snd x = m) sc"
      by (rule sorted_reverse_stable)
    finally have "map fst (filter (\<lambda>x. snd x = m \<and> snd x > 0) (sorted_reverse snd sc))
            = filter (\<lambda>c. score_of sc c = m) canonical_order"
      using filter_by_score [OF d, of "\<lambda>s. s = m"] by (simp add: keys)
    moreover have "filter (\<lambda>c. score_of sc c = m) canonical_order \<noteq> []"
      using t0 sc_t0 by (auto simp: filter_empty_conv)
    moreover have "list_ex (\<lambda>c. score_of sc c > 0) canonical_order"
      using t0 sc_t0 True by (auto simp: list_ex_iff)
    moreover have "filter (\<lambda>c. score_of sc c = m \<and> score_of sc c > 0) canonical_order
                     = filter (\<lambda>c. score_of sc c = m) canonical_order"
      using True by (intro filter_cong) auto
    ultimately show ?thesis
      by (simp add: sel spec_top_types_def mx' Let_def)
  next
    case False
    with nonneg mem have m0: "m = 0" by force
    with ub nonneg have all0: "\<forall>x\<in>set sc. snd x = 0" by force
    have "filter (\<lambda>x. snd x = m \<and> snd x > 0) (sorted_reverse snd sc) = []"
      using m0 by (simp add: filter_empty_conv)
    moreover have "sorted_reverse snd sc = sc"
      using all0 by (rule sorted_reverse_const)
    with srt keys have "t0 = ''R''"
      by (auto simp: canonical_order_def)
    moreover have "\<not> list_ex (\<lambda>c. score_of sc c > 0) canonical_order"
    proof -
      have "\<forall>c\<in>set canonical_order. score_of sc c \<in> snd ` set sc"
        using img by auto
      with all0 show ?thesis by (auto simp: list_ex_iff)
    qed
    ultimately show ?thesis
      by (simp add: sel spec_top_types_def Let_def)
  qed
qed

lemma remdups_snoc: "remdups (ys @ [x]) = filter (\<lambda>y. y \<noteq> x) (remdups ys) @ [x]"
  by (induction ys) auto

lemma first_seen_remdups: "first_seen xs = rev (remdups (rev xs))"
  by (induction xs) (simp_all add: remdups_snoc rev_filter)

lemma remdups_drop_seen: "c \<in> set ys \<Longrightarrow> remdups (xs @ c # ys) = remdups (xs @ ys)"
  by (induction xs) auto

lemma first_seen_distinct: "distinct xs \<Longrightarrow> first_seen xs = xs"
  by (simp add: first_seen_remdups distinct_remdups_id)

lemma first_seen_seen: "c \<in> set acc \<Longrightarrow> first_seen (acc @ c # cs) = first_seen (acc @ cs)"
  by (simp add: first_seen_remdups remdups_drop_seen)

lemma add_careers_first_seen:
  "distinct acc \<Longrightarrow> add_careers cs acc = first_seen (acc @ cs)"
proof (induction cs arbitrary: acc)
  case Nil
  then show ?case by (simp add: first_seen_distinct)
next
  case (Cons c cs)
  show ?case
  proof (cases "c \<in> set acc")
    case True
    with Cons.IH [OF Cons.prems] show ?thesis by (simp add: first_seen_seen)
  next
    case False
    with Cons.prems have "distinct (acc @ [c])" by simp
    from Cons.IH [OF this] False show ?thesis by simp
  qed
qed

lemma distinct_first_seen: "distinct (first_seen xs)"
  by (simp add: first_seen_remdups)

lemma length_first_seen: "length (first_seen xs) \<le> length xs"
  by (simp add: first_seen_remdups) (metis length_remdups_leq length_rev)

lemma first_seen_idem_append: "first_seen (first_seen xs @ ys) = first_seen (xs @ ys)"
  by (simp add: first_seen_remdups remdups_append2)

lemma suggest_first_seen:
  "distinct acc \<Longrightarrow>
     suggest ts acc = first_seen (acc @ concat (map (\<lambda>t. take 3 (dict_get CAREER_MAP t [])) ts))"
proof (induction ts arbitrary: acc)
  case Nil
  then show ?case by (simp add: first_seen_distinct)
next
  case (Cons t ts)
  let ?cs = "take 3 (dict_get CAREER_MAP t [])"
  have step: "add_careers ?cs acc = first_seen (acc @ ?cs)"
    using Cons.prems by (rule add_careers_first_seen)
  have "suggest (t # ts) acc = suggest ts (first_seen (acc @ ?cs))"
    by (simp add: step)
  also have "\<dots> = first_seen (first_seen (acc @ ?cs)
                        @ concat (map (\<lambda>t. take 3 (dict_get CAREER_MAP t [])) ts))"
    by (rule Cons.IH) (rule distinct_first_seen)
  also have "\<dots> = first_seen ((acc @ ?cs) @ concat (map (\<lambda>t. take 3 (dict_get CAREER_MAP t [])) ts))"
    by (rule first_seen_idem_append)
  finally show ?case by simp
qed

lemma join_spaced: "join '' '' bs = spaced bs"
  by (induction "'' ''" bs rule: join.induct) auto

lemma summary_parts_canonical:
  "set ts \<subseteq> set canonical_order \<Longrightarrow>
     \<exists>bs. summary_parts ts = Inr bs \<and> map (map_of SUMMARY_BLURBS) ts = map Some bs"
proof (induction ts)
  case Nil
  then show ?case by simp
next
  case (Cons t ts)
  then obtain bs where bs: "summary_parts ts = Inr bs"
    "map (map_of SUMMARY_BLURBS) ts = map Some bs" by auto
  from Cons.prems have "t \<in> set canonical_order" by simp
  then obtain b where "map_of SUMMARY_BLURBS t = Some b"
    by (auto simp: canonical_order_def SUMMARY_BLURBS_def)
  with bs show ?case by (simp add: dict_item_def)
qed

lemma initial_scores_lookup:
  "map_of initial_scores c = (if c \<in> set canonical_order then Some 0 else None)"
  by (simp add: initial_scores_def canonical_order_def)

lemma initial_scores_keys: "map fst initial_scores = canonical_order"
  by (simp add: initial_scores_def canonical_order_def)

lemma tally_initial:
  assumes "tally as initial_scores = Inr sc"
  shows "map fst sc = canonical_order"
    and "\<forall>x\<in>set sc. 0 \<le> snd x"
    and "c \<in> set canonical_order \<Longrightarrow> map_of sc c = Some (agree_count c as)"
proof -
  show keys: "map fst sc = canonical_order"
    using tally_keys [OF assms] by (simp add: initial_scores_keys)
  have look: "map_of sc c = (if c \<in> set canonical_order then Some (agree_count c as) else None)" for c
    using tally_lookup [OF assms, of c] by (simp add: initial_scores_lookup)
  then show "c \<in> set canonical_order \<Longrightarrow> map_of sc c = Some (agree_count c as)"
    by simp
  have d: "distinct (map fst sc)"
    by (simp add: keys canonical_order_def)
  show "\<forall>x\<in>set sc. 0 \<le> snd x"
  proof
    fix x assume "x \<in> set sc"
    then have "map_of sc (fst x) = Some (snd x)"
      using d by simp
    with look [of "fst x"] show "0 \<le> snd x"
      by (auto simp: agree_count_def split: if_splits)
  qed
qed

lemma assess_Inr:
  assumes "assess cd req = Inr r"
  shows "\<exists>sc tops parts.
           tally (answers req) initial_scores = Inr sc \<and>
           select_top sc = Inr tops \<and>
           summary_parts tops = Inr parts \<and>
           r = \<lparr>id' = (case cd ''assessmentresult''
                               \<lparr>d_name = name req, d_email = email req, d_scores = sc,
                                d_top_types = tops, d_careers = suggest tops [],
                                d_summary = join '' '' parts\<rparr> of
                          Inl ex \<Rightarrow> None | Inr i \<Rightarrow> Some i),
                scores = sc, top_types = tops, careers = suggest tops [],
                summary = join '' '' parts\<rparr>"
  using assms
  by (auto simp: assess_def Let_def initial_scores_def canonical_order_def split: sum.splits)

lemma spec_top_types_shape:
  "spec_top_types sc \<noteq> [] \<and> length (spec_top_types sc) \<le> 2 \<and>
   set (spec_top_types sc) \<subseteq> set canonical_order \<and> distinct (spec_top_types sc)"
proof (cases "list_ex (\<lambda>c. score_of sc c > 0) canonical_order")
  case True
  define m where "m = Max (set (map (score_of sc) canonical_order))"
  let ?f = "filter (\<lambda>c. score_of sc c = m \<and> score_of sc c > 0) canonical_order"
  have tops: "spec_top_types sc = take 2 ?f"
    using True by (simp add: spec_top_types_def Let_def m_def)
  have "m \<in> set (map (score_of sc) canonical_order)"
    unfolding m_def by (rule Max_in) (simp_all add: canonical_order_def)
  then obtain c where c: "c \<in> set canonical_order" "score_of sc c = m"
    by auto
  from True obtain c' where c': "c' \<in> set canonical_order" "0 < score_of sc c'"
    by (auto simp: list_ex_iff)
  then have "score_of sc c' \<le> m"
    unfolding m_def by (intro Max_ge) auto
  with c' have "0 < m" by simp
  with c have "c \<in> set ?f" by simp
  then have "?f \<noteq> []" by (metis empty_iff empty_set)
  moreover have "distinct ?f" by (simp add: canonical_order_def)
  moreover have "set (take 2 ?f) \<subseteq> set canonical_order"
    using set_take_subset [of 2 ?f] by auto
  ultimately show ?thesis
    unfolding tops by simp
next
  case False
  then show ?thesis by (simp add: spec_top_types_def canonical_order_def)
qed

lemma assess_facts:
  assumes "assess cd req = Inr r"
  shows "tally (answers req) initial_scores = Inr (scores r)"
    and "top_types r = spec_top_types (scores r)"
    and "careers r = suggest (top_types r) []"
    and "\<exists>parts. summary_parts (top_types r) = Inr parts \<and> summary r = join '' '' parts"
    and "id' r = (case cd ''assessmentresult''
                       \<lparr>d_name = name req, d_email = email req, d_scores = scores r,
                        d_top_types = top_types r, d_careers = careers r,
                        d_summary = summary r\<rparr> of
                    Inl ex \<Rightarrow> None | Inr i \<Rightarrow> Some i)"
proof -
  from assess_Inr [OF assms] obtain sc tops parts where
    t: "tally (answers req) initial_scores = Inr sc" and
    s: "select_top sc = Inr tops" and
    p: "summary_parts tops = Inr parts" and
    r: "r = \<lparr>id' = (case cd ''assessmentresult''
                               \<lparr>d_name = name req, d_email = email req, d_scores = sc,
                                d_top_types = tops, d_careers = suggest tops [],
                                d_summary = join '' '' parts\<rparr> of
                          Inl ex \<Rightarrow> None | Inr i \<Rightarrow> Some i),
                scores = sc, top_types = tops, careers = suggest tops [],
                summary = join '' '' parts\<rparr>"
    by blast
  from t r show "tally (answers req) initial_scores = Inr (scores r)" by simp
  from select_top_spec [OF tally_initial(1,2) [OF t]] s r
  show "top_types r = spec_top_types (scores r)" by simp
  from r show "careers r = suggest (top_types r) []" by simp
  from p r show "\<exists>parts. summary_parts (top_types r) = Inr parts \<and> summary r = join '' '' parts"
    by simp
  from r show "id' r = (case cd ''assessmentresult''
                       \<lparr>d_name = name req, d_email = email req, d_scores = scores r,
                        d_top_types = top_types r, d_careers = careers r,
                        d_summary = summary r\<rparr> of
                    Inl ex \<Rightarrow> None | Inr i \<Rightarrow> Some i)" by simp
qed

lemma assess_of_tally:
  assumes t: "tally (answers req) initial_scores = Inr sc"
  shows "\<exists>parts. summary_parts (spec_top_types sc) = Inr parts \<and>
          assess cd req =
            Inr \<lparr>id' = (case cd ''assessmentresult''
                               \<lparr>d_name = name req, d_email = email req, d_scores = sc,
                                d_top_types = spec_top_types sc,
                                d_careers = suggest (spec_top_types sc) [],
                                d_summary = join '' '' parts\<rparr> of
                          Inl ex \<Rightarrow> None | Inr i \<Rightarrow> Some i),
                 scores = sc, top_types = spec_top_types sc,
                 careers = suggest (spec_top_types sc) [],
                 summary = join '' '' parts\<rparr>"
proof -
  have s: "select_top sc = Inr (spec_top_types sc)"
    by (rule select_top_spec [OF tally_initial(1,2) [OF t]])
  from spec_top_types_shape [of sc] summary_parts_canonical [of "spec_top_types sc"]
  obtain parts where p: "summary_parts (spec_top_types sc) = Inr parts" by blast
  from t have t': "tally (answers req)
      [(''R'', 0), (''I'', 0), (''A'', 0), (''S'', 0), (''E'', 0), (''C'', 0)] = Inr sc"
    by (simp add: initial_scores_def canonical_order_def)
  show ?thesis
    by (rule exI [of _ parts]) (simp add: assess_def t' s p Let_def)
qed

lemma assess_of_tally_error:
  "tally (answers req) initial_scores = Inl e \<Longrightarrow> assess cd req = Inl e"
  by (simp add: assess_def initial_scores_def canonical_order_def)

lemma concat_take_bound:
  "length ts \<le> 2 \<Longrightarrow> length (concat (map (\<lambda>t. take 3 (f t)) ts)) \<le> 6"
proof -
  assume l: "length ts \<le> 2"
  have "length (concat (map (\<lambda>t. take 3 (f t)) ts)) \<le> 3 * length ts"
    by (induction ts) auto
  with l show ?thesis by simp
qed


lemma valid_find: "valid_answers as \<longleftrightarrow> find offending as = None"
  by (auto simp: valid_answers_def find_None_iff list_all_iff offending_def)

lemma assess_valid:
  assumes "valid_answers (answers req)"
  shows "\<exists>r. assess cd req = Inr r"
proof -
  from assms have "find offending (answers req) = None"
    by (simp only: valid_find)
  from tally_succeeds [OF this, of initial_scores]
  obtain sc where "tally (answers req) initial_scores = Inr sc"
    by (auto simp: initial_scores_keys)
  from assess_of_tally [OF this, of cd] show ?thesis by blast
qed

lemma assess_Inr_valid:
  assumes "assess cd req = Inr r"
  shows "valid_answers (answers req)"
proof -
  from assess_facts(1) [OF assms] have "\<forall>a\<in>set (answers req). \<not> offending a"
    using tally_valid by blast
  then show ?thesis
    by (auto simp: valid_answers_def list_all_iff offending_def)
qed

section \<open>Properties of the endpoints\<close>

text \<open>
  C1. For every valid answer list, \<open>assess\<close> returns, and its \<open>top_types\<close> are the
  categories whose score is the maximum and positive, in the order R, I, A, S, E, C, cut
  to the first two; when no category has a positive score it is the single category R.
\<close>

theorem top_types_selection:
  assumes "valid_answers (answers req)"
  shows "\<exists>r. assess cd req = Inr r \<and> top_types r = spec_top_types (scores r)"
proof -
  from assess_valid [OF assms] obtain r where r: "assess cd req = Inr r" by blast
  from assess_facts(2) [OF r] r show ?thesis by blast
qed

theorem top_types_selection_witness:
  "valid_answers (answers req_tie) \<and> assess store_ok req_tie = Inr res_tie \<and>
   top_types res_tie = spec_top_types (scores res_tie) \<and> top_types res_tie = [''R'', ''I''] \<and>
   valid_answers (answers req_all_B) \<and> assess store_ok req_all_B = Inr res_all_B \<and>
   top_types res_all_B = spec_top_types (scores res_all_B) \<and> top_types res_all_B = [''R'']"
proof -
  have v1: "valid_answers (answers req_tie)"
    by (simp add: valid_answers_def req_tie_def in_catalog_def QUESTIONS_def)
  have v2: "valid_answers (answers req_all_B)"
    by (simp add: valid_answers_def req_all_B_def in_catalog_def QUESTIONS_def)
  have e1: "assess store_ok req_tie = Inr res_tie"
    by (simp add: eval_defs req_tie_def res_tie_def)
  have e2: "assess store_ok req_all_B = Inr res_all_B"
    by (simp add: eval_defs req_all_B_def res_all_B_def)
  from top_types_selection [OF v1, of store_ok] e1
  have s1: "top_types res_tie = spec_top_types (scores res_tie)" by simp
  from top_types_selection [OF v2, of store_ok] e2
  have s2: "top_types res_all_B = spec_top_types (scores res_all_B)" by simp
  have "top_types res_tie = [''R'', ''I'']" by (simp add: res_tie_def)
  moreover have "top_types res_all_B = [''R'']" by (simp add: res_all_B_def)
  ultimately show ?thesis using v1 v2 e1 e2 s1 s2 by simp
qed

text \<open>
  C2. For every answer list that passes validation, the returned \<open>scores\<close> has exactly the
  keys R, I, A, S, E, C, every value is non-negative, and the six values sum to the number
  of submitted answers whose choice is "A".
\<close>

theorem scores_keys_and_sum:
  assumes "valid_answers (answers req)"
  shows "\<exists>r. assess cd req = Inr r \<and>
           map fst (scores r) = [''R'', ''I'', ''A'', ''S'', ''E'', ''C''] \<and>
           (\<forall>x\<in>set (scores r). 0 \<le> snd x) \<and>
           sum_list (map snd (scores r)) =
             int (length (filter (\<lambda>a. choice a = ''A'') (answers req)))"
proof -
  from assess_valid [OF assms] obtain r where r: "assess cd req = Inr r" by blast
  note t = assess_facts(1) [OF r]
  have k: "map fst (scores r) = [''R'', ''I'', ''A'', ''S'', ''E'', ''C'']"
    using tally_initial(1) [OF t] by (simp only: canonical_order_def)
  have n: "\<forall>x\<in>set (scores r). 0 \<le> snd x"
    by (rule tally_initial(2) [OF t])
  have "sum_list (map snd initial_scores) = 0"
    by (simp add: initial_scores_def canonical_order_def)
  with tally_sum [OF t]
  have s: "sum_list (map snd (scores r)) =
             int (length (filter (\<lambda>a. choice a = ''A'') (answers req)))"
    by simp
  from r k n s show ?thesis by (intro exI [of _ r] conjI)
qed

theorem scores_keys_and_sum_witness:
  "valid_answers (answers req_tie) \<and> assess store_down req_tie = Inr (res_tie\<lparr>id' := None\<rparr>) \<and>
   map fst (scores res_tie) = [''R'', ''I'', ''A'', ''S'', ''E'', ''C''] \<and>
   list_all (\<lambda>x. 0 \<le> snd x) (scores res_tie) \<and>
   sum_list (map snd (scores res_tie)) =
     int (length (filter (\<lambda>a. choice a = ''A'') (answers req_tie))) \<and>
   int (length (filter (\<lambda>a. choice a = ''A'') (answers req_tie))) = 4"
proof -
  have v: "valid_answers (answers req_tie)"
    by (simp add: valid_answers_def req_tie_def in_catalog_def QUESTIONS_def)
  have e: "assess store_down req_tie = Inr (res_tie\<lparr>id' := None\<rparr>)"
    by (simp add: eval_defs req_tie_def res_tie_def)
  have c: "int (length (filter (\<lambda>a. choice a = ''A'') (answers req_tie))) = 4"
    by (simp add: req_tie_def)
  from scores_keys_and_sum [OF v, of store_down] obtain r where
    r: "assess store_down req_tie = Inr r" and
    k: "map fst (scores r) = [''R'', ''I'', ''A'', ''S'', ''E'', ''C'']" and
    n: "\<forall>x\<in>set (scores r). 0 \<le> snd x" and
    s: "sum_list (map snd (scores r)) =
          int (length (filter (\<lambda>a. choice a = ''A'') (answers req_tie)))"
    by (elim exE conjE)
  from r e have "r = res_tie\<lparr>id' := None\<rparr>" by simp
  then have eq: "scores r = scores res_tie" by simp
  from n have n': "list_all (\<lambda>x. 0 \<le> snd x) (scores r)"
    by (simp only: list_all_iff)
  from k n' s show ?thesis
    unfolding eq using v e c by (intro conjI)
qed

text \<open>
  C3. \<open>assess\<close> fails exactly when some submitted answer has a question id outside the
  catalog or a choice other than "A" or "B". The failure is the HTTP 400 error of the first
  such answer in input order, the unknown id taking precedence over the invalid choice of
  the same answer, and a failing call returns the error alone, whatever the persistence
  collaborator is.
\<close>

theorem assess_error_iff:
  "((\<exists>e. assess cd req = Inl e) \<longleftrightarrow>
      (\<exists>a\<in>set (answers req).
          \<not> in_catalog (question_id a) \<or> (choice a \<noteq> ''A'' \<and> choice a \<noteq> ''B''))) \<and>
   (\<forall>a. find offending (answers req) = Some a \<longrightarrow>
      assess cd req = Inl (answer_error a) \<and>
      answer_error a =
        (if \<not> in_catalog (question_id a)
         then HTTPException 400 (''Invalid question id: '' @ str_int (question_id a))
         else HTTPException 400 (''Choice must be '' @ [CHR 0x27] @ ''A'' @ [CHR 0x27]
                                     @ '' or '' @ [CHR 0x27] @ ''B'' @ [CHR 0x27])) \<and>
      400 \<le> status_code (answer_error a) \<and> status_code (answer_error a) < 500)"
proof (intro conjI allI impI)
  show "(\<exists>e. assess cd req = Inl e) \<longleftrightarrow>
      (\<exists>a\<in>set (answers req).
          \<not> in_catalog (question_id a) \<or> (choice a \<noteq> ''A'' \<and> choice a \<noteq> ''B''))"
  proof (cases "valid_answers (answers req)")
    case True
    from assess_valid [OF True, of cd] True show ?thesis
      by (auto simp: valid_answers_def list_all_iff)
  next
    case False
    then obtain a where "find offending (answers req) = Some a"
      by (auto simp: valid_find)
    from tally_fails [OF this, of initial_scores]
    have "assess cd req = Inl (answer_error a)"
      by (simp add: initial_scores_keys assess_of_tally_error)
    with False show ?thesis
      by (auto simp: valid_answers_def list_all_iff)
  qed
next
  fix a assume f: "find offending (answers req) = Some a"
  from tally_fails [OF f, of initial_scores]
  show "assess cd req = Inl (answer_error a)"
    by (simp add: initial_scores_keys assess_of_tally_error)
  show "answer_error a =
        (if \<not> in_catalog (question_id a)
         then HTTPException 400 (''Invalid question id: '' @ str_int (question_id a))
         else HTTPException 400 (''Choice must be '' @ [CHR 0x27] @ ''A'' @ [CHR 0x27]
                                     @ '' or '' @ [CHR 0x27] @ ''B'' @ [CHR 0x27]))"
    by (simp add: answer_error_def invalid_question_id_def invalid_choice_def)
  show "400 \<le> status_code (answer_error a)"
    by (simp add: answer_error_def invalid_question_id_def invalid_choice_def)
  show "status_code (answer_error a) < 500"
    by (simp add: answer_error_def invalid_question_id_def invalid_choice_def)
qed

theorem assess_error_iff_witness:
  "find offending (answers req_bad) = Some \<lparr>question_id = 999, choice = ''C''\<rparr> \<and>
   assess store_ok req_bad = Inl (HTTPException 400 ''Invalid question id: 999'') \<and>
   find offending (answers req_bad_choice) = Some \<lparr>question_id = 2, choice = ''a''\<rparr> \<and>
   assess store_ok req_bad_choice =
     Inl (HTTPException 400 (''Choice must be '' @ [CHR 0x27] @ ''A'' @ [CHR 0x27]
                                     @ '' or '' @ [CHR 0x27] @ ''B'' @ [CHR 0x27]))"
proof -
  have f1: "find offending (answers req_bad) = Some \<lparr>question_id = 999, choice = ''C''\<rparr>"
    by (simp add: req_bad_def offending_def in_catalog_def QUESTIONS_def)
  have f2: "find offending (answers req_bad_choice) = Some \<lparr>question_id = 2, choice = ''a''\<rparr>"
    by (simp add: req_bad_choice_def offending_def in_catalog_def QUESTIONS_def)
  have a1: "answer_error \<lparr>question_id = 999, choice = ''C''\<rparr>
              = HTTPException 400 ''Invalid question id: 999''"
    by (simp add: answer_error_def invalid_question_id_def in_catalog_def QUESTIONS_def
          str_int_def str_nat.simps digit_char_def)
  have a2: "answer_error \<lparr>question_id = 2, choice = ''a''\<rparr>
              = HTTPException 400 (''Choice must be '' @ [CHR 0x27] @ ''A'' @ [CHR 0x27]
                                     @ '' or '' @ [CHR 0x27] @ ''B'' @ [CHR 0x27])"
    by (simp add: answer_error_def invalid_choice_def in_catalog_def QUESTIONS_def)
  from assess_error_iff [of store_ok req_bad] f1 a1
  have "assess store_ok req_bad = Inl (HTTPException 400 ''Invalid question id: 999'')"
    by simp
  moreover from assess_error_iff [of store_ok req_bad_choice] f2 a2
  have "assess store_ok req_bad_choice =
     Inl (HTTPException 400 (''Choice must be '' @ [CHR 0x27] @ ''A'' @ [CHR 0x27]
                                     @ '' or '' @ [CHR 0x27] @ ''B'' @ [CHR 0x27]))"
    by simp
  ultimately show ?thesis using f1 f2 by simp
qed

text \<open>
  C4. For every valid request, a run whose persistence call raises still returns a
  result, and that result is the result of any other run on the same request (in
  particular of one whose persistence call succeeds) with the identifier set to
  \<open>None\<close>: \<open>scores\<close>, \<open>top_types\<close>, \<open>careers\<close> and \<open>summary\<close> are the same.
\<close>

theorem persistence_failure_ignored:
  assumes "valid_answers (answers req)"
  shows "\<exists>r. assess cd_ok req = Inr r \<and>
           (\<forall>ex. cd_fail ''assessmentresult''
                    \<lparr>d_name = name req, d_email = email req, d_scores = scores r,
                     d_top_types = top_types r, d_careers = careers r,
                     d_summary = summary r\<rparr> = Inl ex \<longrightarrow>
                 assess cd_fail req = Inr (r\<lparr>id' := None\<rparr>))"
proof -
  from assess_valid [OF assms, of cd_ok] obtain r where r: "assess cd_ok req = Inr r" by (elim exE)
  from assess_Inr [OF r] obtain sc tops parts where
    t: "tally (answers req) initial_scores = Inr sc" and
    s: "select_top sc = Inr tops" and
    p: "summary_parts tops = Inr parts" and
    req: "r = \<lparr>id' = (case cd_ok ''assessmentresult''
                               \<lparr>d_name = name req, d_email = email req, d_scores = sc,
                                d_top_types = tops, d_careers = suggest tops [],
                                d_summary = join '' '' parts\<rparr> of
                          Inl ex \<Rightarrow> None | Inr i \<Rightarrow> Some i),
                scores = sc, top_types = tops, careers = suggest tops [],
                summary = join '' '' parts\<rparr>"
    by (elim exE conjE)
  from t have t': "tally (answers req)
      [(''R'', 0), (''I'', 0), (''A'', 0), (''S'', 0), (''E'', 0), (''C'', 0)] = Inr sc"
    by (simp add: initial_scores_def canonical_order_def)
  have "assess cd_fail req = Inr (r\<lparr>id' := None\<rparr>)"
    if "cd_fail ''assessmentresult''
                    \<lparr>d_name = name req, d_email = email req, d_scores = scores r,
                     d_top_types = top_types r, d_careers = careers r,
                     d_summary = summary r\<rparr> = Inl ex" for ex
    using that by (simp add: assess_def t' s p Let_def req)
  with r show ?thesis by (intro exI [of _ r] conjI allI impI)
qed

theorem persistence_failure_ignored_witness:
  "valid_answers (answers req_tie) \<and>
   assess store_ok req_tie = Inr res_tie \<and> id' res_tie = Some ''doc1'' \<and>
   store_down ''assessmentresult''
      \<lparr>d_name = name req_tie, d_email = email req_tie, d_scores = scores res_tie,
       d_top_types = top_types res_tie, d_careers = careers res_tie,
       d_summary = summary res_tie\<rparr> = Inl ''store unreachable'' \<and>
   assess store_down req_tie = Inr (res_tie\<lparr>id' := None\<rparr>)"
proof -
  have v: "valid_answers (answers req_tie)"
    by (simp add: valid_answers_def req_tie_def in_catalog_def QUESTIONS_def)
  have e: "assess store_ok req_tie = Inr res_tie"
    by (simp add: eval_defs req_tie_def res_tie_def)
  have i: "id' res_tie = Some ''doc1''"
    by (simp add: res_tie_def)
  have d: "store_down ''assessmentresult''
      \<lparr>d_name = name req_tie, d_email = email req_tie, d_scores = scores res_tie,
       d_top_types = top_types res_tie, d_careers = careers res_tie,
       d_summary = summary res_tie\<rparr> = Inl ''store unreachable''"
    by (simp add: store_down_def)
  from persistence_failure_ignored [OF v, of store_ok store_down] obtain r where
    r: "assess store_ok req_tie = Inr r" and
    f: "\<forall>ex. store_down ''assessmentresult''
                    \<lparr>d_name = name req_tie, d_email = email req_tie, d_scores = scores r,
                     d_top_types = top_types r, d_careers = careers r,
                     d_summary = summary r\<rparr> = Inl ex \<longrightarrow>
                 assess store_down req_tie = Inr (r\<lparr>id' := None\<rparr>)"
    by (elim exE conjE)
  from r e have eq: "r = res_tie" by simp
  from f d have "assess store_down req_tie = Inr (res_tie\<lparr>id' := None\<rparr>)"
    unfolding eq by (elim allE [of _ "''store unreachable''"] impE)
  with v e i d show ?thesis by (intro conjI)
qed

text \<open>
  C5. For every valid request, \<open>careers\<close> is the list of the first three \<open>CAREER_MAP\<close>
  titles of each selected top category, taken in selection order, in which only the first
  occurrence of a title is kept; so it has no duplicate and at most six entries.
\<close>

theorem careers_first_seen:
  assumes "valid_answers (answers req)"
  shows "\<exists>r. assess cd req = Inr r \<and>
           careers r =
             first_seen (concat (map (\<lambda>t. take 3 (dict_get CAREER_MAP t [])) (top_types r))) \<and>
           distinct (careers r) \<and> length (careers r) \<le> 6"
proof -
  from assess_valid [OF assms, of cd] obtain r where r: "assess cd req = Inr r" by (elim exE)
  let ?titles = "concat (map (\<lambda>t. take 3 (dict_get CAREER_MAP t [])) (top_types r))"
  have c: "careers r = first_seen ?titles"
    using assess_facts(3) [OF r] suggest_first_seen [of "[]" "top_types r"] by simp
  have d: "distinct (careers r)"
    unfolding c by (rule distinct_first_seen)
  have "length (top_types r) \<le> 2"
    using assess_facts(2) [OF r] spec_top_types_shape [of "scores r"] by simp
  then have "length ?titles \<le> 6"
    by (rule concat_take_bound)
  with length_first_seen [of ?titles] have l: "length (careers r) \<le> 6"
    unfolding c by simp
  from r c d l show ?thesis by (intro exI [of _ r] conjI)
qed

theorem careers_first_seen_witness:
  "valid_answers (answers req_tie) \<and> assess store_ok req_tie = Inr res_tie \<and>
   careers res_tie =
     first_seen (concat (map (\<lambda>t. take 3 (dict_get CAREER_MAP t [])) (top_types res_tie))) \<and>
   distinct (careers res_tie) \<and> length (careers res_tie) \<le> 6 \<and>
   careers res_tie = [''Mechanical Engineer'', ''Electrician'', ''Carpenter'',
                      ''Data Scientist'', ''Research Analyst'', ''Software Developer'']"
proof -
  have v: "valid_answers (answers req_tie)"
    by (simp add: valid_answers_def req_tie_def in_catalog_def QUESTIONS_def)
  have e: "assess store_ok req_tie = Inr res_tie"
    by (simp add: eval_defs req_tie_def res_tie_def)
  from careers_first_seen [OF v, of store_ok] obtain r where
    r: "assess store_ok req_tie = Inr r" and
    c: "careers r =
          first_seen (concat (map (\<lambda>t. take 3 (dict_get CAREER_MAP t [])) (top_types r)))" and
    d: "distinct (careers r)" and l: "length (careers r) \<le> 6"
    by (elim exE conjE)
  from r e have eq: "r = res_tie" by simp
  have x: "careers res_tie = [''Mechanical Engineer'', ''Electrician'', ''Carpenter'',
                      ''Data Scientist'', ''Research Analyst'', ''Software Developer'']"
    by (simp add: res_tie_def)
  from c d l show ?thesis
    unfolding eq using v e x by (intro conjI)
qed

text \<open>
  C6. For every valid request, \<open>top_types\<close> has one or two elements, each of them one of
  the six category codes, and no element occurs twice.
\<close>

theorem top_types_shape:
  assumes "valid_answers (answers req)"
  shows "\<exists>r. assess cd req = Inr r \<and>
           (length (top_types r) = 1 \<or> length (top_types r) = 2) \<and>
           set (top_types r) \<subseteq> {''R'', ''I'', ''A'', ''S'', ''E'', ''C''} \<and>
           distinct (top_types r)"
proof -
  from assess_valid [OF assms, of cd] obtain r where r: "assess cd req = Inr r" by (elim exE)
  note sh = spec_top_types_shape [of "scores r", folded assess_facts(2) [OF r]]
  from sh have "length (top_types r) \<noteq> 0" and "length (top_types r) \<le> 2"
    by simp_all
  then have l: "length (top_types r) = 1 \<or> length (top_types r) = 2"
    by arith
  from sh have s: "set (top_types r) \<subseteq> {''R'', ''I'', ''A'', ''S'', ''E'', ''C''}"
    by (simp add: canonical_order_def)
  from sh have d: "distinct (top_types r)"
    by simp
  from r l s d show ?thesis by (intro exI [of _ r] conjI)
qed

theorem top_types_shape_witness:
  "valid_answers (answers req_all_B) \<and> assess store_down req_all_B = Inr (res_all_B\<lparr>id' := None\<rparr>) \<and>
   (length (top_types res_all_B) = 1 \<or> length (top_types res_all_B) = 2) \<and>
   set (top_types res_all_B) \<subseteq> {''R'', ''I'', ''A'', ''S'', ''E'', ''C''} \<and>
   distinct (top_types res_all_B) \<and> top_types res_all_B = [''R'']"
proof -
  have v: "valid_answers (answers req_all_B)"
    by (simp add: valid_answers_def req_all_B_def in_catalog_def QUESTIONS_def)
  have e: "assess store_down req_all_B = Inr (res_all_B\<lparr>id' := None\<rparr>)"
    by (simp add: eval_defs req_all_B_def res_all_B_def)
  from top_types_shape [OF v, of store_down] obtain r where
    r: "assess store_down req_all_B = Inr r" and
    l: "length (top_types r) = 1 \<or> length (top_types r) = 2" and
    s: "set (top_types r) \<subseteq> {''R'', ''I'', ''A'', ''S'', ''E'', ''C''}" and
    d: "distinct (top_types r)"
    by (elim exE conjE)
  from r e have "r = res_all_B\<lparr>id' := None\<rparr>" by simp
  then have eq: "top_types r = top_types res_all_B" by simp
  have x: "top_types res_all_B = [''R'']"
    by (simp add: res_all_B_def)
  from l s d show ?thesis
    unfolding eq using v e x by (intro conjI)
qed

text \<open>
  C7 (as amended). For every request accepted by \<open>assess\<close>, the sum of the six scores is
  at most the number of answers submitted. The number of answers itself is not bounded:
  the request model puts no limit on the list and \<open>assess\<close> checks none.
\<close>

theorem score_sum_bound:
  assumes "assess cd req = Inr r"
  shows "sum_list (map snd (scores r)) \<le> int (length (answers req))"
proof -
  note t = assess_facts(1) [OF assms]
  have "sum_list (map snd initial_scores) = 0"
    by (simp add: initial_scores_def canonical_order_def)
  with tally_sum [OF t]
  have "sum_list (map snd (scores r)) =
          int (length (filter (\<lambda>a. choice a = ''A'') (answers req)))"
    by simp
  also have "\<dots> \<le> int (length (answers req))"
    by simp
  finally show ?thesis .
qed

theorem score_sum_bound_witness:
  "assess store_ok req_thirteen = Inr res_thirteen \<and>
   sum_list (map snd (scores res_thirteen)) \<le> int (length (answers req_thirteen)) \<and>
   sum_list (map snd (scores res_thirteen)) = 13"
proof -
  have e: "assess store_ok req_thirteen = Inr res_thirteen"
    by (simp add: eval_defs req_thirteen_def res_thirteen_def eval_nat_numeral)
  have s: "sum_list (map snd (scores res_thirteen)) = 13"
    by (simp add: res_thirteen_def)
  from score_sum_bound [OF e] e s show ?thesis by (intro conjI)
qed

text \<open>
  The claim as stated also bounds the number of answers by 12. A request with thirteen
  answers to question 1 is accepted.
\<close>

theorem answer_count_bound_counterexample:
  "assess store_ok req_thirteen = Inr res_thirteen \<and>
   \<not> (sum_list (map snd (scores res_thirteen)) \<le> int (length (answers req_thirteen)) \<and>
      length (answers req_thirteen) \<le> 12)"
proof -
  have e: "assess store_ok req_thirteen = Inr res_thirteen"
    by (simp add: eval_defs req_thirteen_def res_thirteen_def eval_nat_numeral)
  have "\<not> length (answers req_thirteen) \<le> 12"
    by (simp add: req_thirteen_def)
  with e show ?thesis by simp
qed

text \<open>
  C8. For every valid request, every selected top category has a blurb in
  \<open>SUMMARY_BLURBS\<close>, and \<open>summary\<close> is these blurbs in selection order, each one after the
  first preceded by exactly one space; with a single top type it is that blurb itself.
\<close>

theorem summary_joined:
  assumes "valid_answers (answers req)"
  shows "\<exists>r bs. assess cd req = Inr r \<and>
           map (map_of SUMMARY_BLURBS) (top_types r) = map Some bs \<and>
           summary r = spaced bs \<and>
           (\<forall>t. top_types r = [t] \<longrightarrow> map_of SUMMARY_BLURBS t = Some (summary r))"
proof -
  from assess_valid [OF assms, of cd] obtain r where r: "assess cd req = Inr r" by (elim exE)
  from assess_facts(4) [OF r] obtain parts where
    p: "summary_parts (top_types r) = Inr parts" and j: "summary r = join '' '' parts"
    by (elim exE conjE)
  have "set (top_types r) \<subseteq> set canonical_order"
    using assess_facts(2) [OF r] spec_top_types_shape [of "scores r"] by simp
  from summary_parts_canonical [OF this] p
  have m: "map (map_of SUMMARY_BLURBS) (top_types r) = map Some parts"
    by auto
  from j have s: "summary r = spaced parts"
    by (simp only: join_spaced)
  have o: "\<forall>t. top_types r = [t] \<longrightarrow> map_of SUMMARY_BLURBS t = Some (summary r)"
  proof (intro allI impI)
    fix t assume "top_types r = [t]"
    with m have "[map_of SUMMARY_BLURBS t] = map Some parts" by simp
    then obtain b where "parts = [b]" and "map_of SUMMARY_BLURBS t = Some b"
      by (cases parts) auto
    with s show "map_of SUMMARY_BLURBS t = Some (summary r)" by simp
  qed
  from r m s o show ?thesis by (intro exI [of _ r] exI [of _ parts] conjI)
qed

theorem summary_joined_witness:
  "valid_answers (answers req_tie) \<and> assess store_ok req_tie = Inr res_tie \<and>
   top_types res_tie = [''R'', ''I''] \<and>
   map_of SUMMARY_BLURBS ''R'' = Some ''Hands-on, practical, and mechanical. You enjoy building, fixing, and working with tools.'' \<and>
   map_of SUMMARY_BLURBS ''I'' = Some ''Analytical and curious. You enjoy research, problem-solving, and understanding how things work.'' \<and>
   summary res_tie =
     spaced [''Hands-on, practical, and mechanical. You enjoy building, fixing, and working with tools.'',
             ''Analytical and curious. You enjoy research, problem-solving, and understanding how things work.'']"
proof -
  have v: "valid_answers (answers req_tie)"
    by (simp add: valid_answers_def req_tie_def in_catalog_def QUESTIONS_def)
  have e: "assess store_ok req_tie = Inr res_tie"
    by (simp add: eval_defs req_tie_def res_tie_def)
  have t: "top_types res_tie = [''R'', ''I'']"
    by (simp add: res_tie_def)
  have b1: "map_of SUMMARY_BLURBS ''R'' = Some ''Hands-on, practical, and mechanical. You enjoy building, fixing, and working with tools.''"
    by (simp add: SUMMARY_BLURBS_def)
  have b2: "map_of SUMMARY_BLURBS ''I'' = Some ''Analytical and curious. You enjoy research, problem-solving, and understanding how things work.''"
    by (simp add: SUMMARY_BLURBS_def)
  from summary_joined [OF v, of store_ok] obtain r bs where
    r: "assess store_ok req_tie = Inr r" and
    m: "map (map_of SUMMARY_BLURBS) (top_types r) = map Some bs" and
    s: "summary r = spaced bs"
    by (elim exE conjE)
  from r e have eq: "r = res_tie" by simp
  from m have "map Some bs = [map_of SUMMARY_BLURBS ''R'', map_of SUMMARY_BLURBS ''I'']"
    unfolding eq t by simp
  then have "bs = [''Hands-on, practical, and mechanical. You enjoy building, fixing, and working with tools.'',
             ''Analytical and curious. You enjoy research, problem-solving, and understanding how things work.'']"
    unfolding b1 b2 by (auto simp: map_eq_Cons_conv)
  with s have "summary res_tie =
     spaced [''Hands-on, practical, and mechanical. You enjoy building, fixing, and working with tools.'',
             ''Analytical and curious. You enjoy research, problem-solving, and understanding how things work.'']"
    unfolding eq by (simp only:)
  with v e t b1 b2 show ?thesis by (intro conjI)
qed

text \<open>
  C9. The questions endpoint returns one dictionary per catalog question, in catalog
  order, which is ascending id order 1 to 12; each dictionary has exactly the keys
  \<open>id\<close>, \<open>text\<close> and \<open>options\<close>, holding the question's id, its text and the dictionary of
  its two labels under \<open>A\<close> and \<open>B\<close>; no dictionary has a key \<open>type\<close>. The endpoint takes
  no input and reads nothing but the constant catalog, so its value is this one list at
  every call.
\<close>

theorem get_questions_fixed:
  "length get_questions = 12 \<and>
   map (\<lambda>e. map_of e ''id'') get_questions =
     map (\<lambda>i. Some (PInt i)) [1, 2, 3, 4, 5, 6, 7, 8, 9, 10, 11, 12] \<and>
   map (map fst) get_questions = replicate 12 [''id'', ''text'', ''options''] \<and>
   map (\<lambda>e. map_of e ''id'') get_questions = map (\<lambda>q. Some (PInt (q_id q))) QUESTIONS \<and>
   map (\<lambda>e. map_of e ''text'') get_questions = map (\<lambda>q. Some (PStr (q_text q))) QUESTIONS \<and>
   map (\<lambda>e. map_of e ''options'') get_questions =
     map (\<lambda>q. Some (PDict [(''A'', PStr (q_A q)), (''B'', PStr (q_B q))])) QUESTIONS \<and>
   list_all (\<lambda>e. map_of e ''type'' = None) get_questions"
proof (intro conjI)
  show "length get_questions = 12"
    by (simp add: get_questions_def QUESTIONS_def)
  show "map (\<lambda>e. map_of e ''id'') get_questions =
     map (\<lambda>i. Some (PInt i)) [1, 2, 3, 4, 5, 6, 7, 8, 9, 10, 11, 12]"
    by (simp add: get_questions_def QUESTIONS_def)
  show "map (map fst) get_questions = replicate 12 [''id'', ''text'', ''options'']"
    by (simp add: get_questions_def QUESTIONS_def eval_nat_numeral)
  show "map (\<lambda>e. map_of e ''id'') get_questions = map (\<lambda>q. Some (PInt (q_id q))) QUESTIONS"
    by (simp add: get_questions_def)
  show "map (\<lambda>e. map_of e ''text'') get_questions = map (\<lambda>q. Some (PStr (q_text q))) QUESTIONS"
    by (simp add: get_questions_def)
  show "map (\<lambda>e. map_of e ''options'') get_questions =
     map (\<lambda>q. Some (PDict [(''A'', PStr (q_A q)), (''B'', PStr (q_B q))])) QUESTIONS"
    by (simp add: get_questions_def)
  show "list_all (\<lambda>e. map_of e ''type'' = None) get_questions"
    by (simp add: get_questions_def list_all_iff)
qed

text \<open>
  C10. \<open>assess\<close> neither removes repeated answers nor limits their number: for every
  valid answer list, of any length and with any repetitions, each category's score is the
  number of answers, counted with multiplicity, whose choice is "A" and whose question has
  that category. Two answers "A" to question 1 give R the score 2.
\<close>

theorem repeated_answers_counted:
  assumes "valid_answers (answers req)"
  shows "\<exists>r. assess cd req = Inr r \<and>
           (\<forall>c\<in>set canonical_order. map_of (scores r) c = Some (agree_count c (answers req)))"
proof -
  from assess_valid [OF assms, of cd] obtain r where r: "assess cd req = Inr r" by (elim exE)
  note t = assess_facts(1) [OF r]
  have "\<forall>c\<in>set canonical_order. map_of (scores r) c = Some (agree_count c (answers req))"
    using tally_initial(3) [OF t] by blast
  with r show ?thesis by (intro exI [of _ r] conjI)
qed

theorem repeated_answers_counted_witness:
  "valid_answers (answers req_twice) \<and> assess store_ok req_twice = Inr res_twice \<and>
   map_of (scores res_twice) ''R'' = Some (agree_count ''R'' (answers req_twice)) \<and>
   agree_count ''R'' (answers req_twice) = 2 \<and>
   valid_answers (answers req_thirteen) \<and> length (answers req_thirteen) = 13 \<and>
   assess store_down req_thirteen = Inr (res_thirteen\<lparr>id' := None\<rparr>) \<and>
   map_of (scores res_thirteen) ''R'' = Some (agree_count ''R'' (answers req_thirteen)) \<and>
   agree_count ''R'' (answers req_thirteen) = 13"
proof -
  have v1: "valid_answers (answers req_twice)"
    by (simp add: valid_answers_def req_twice_def in_catalog_def QUESTIONS_def)
  have e1: "assess store_ok req_twice = Inr res_twice"
    by (simp add: eval_defs req_twice_def res_twice_def)
  have a1: "agree_count ''R'' (answers req_twice) = 2"
    by (simp add: agree_count_def req_twice_def q_index_def QUESTIONS_def)
  have v2: "valid_answers (answers req_thirteen)"
    by (simp add: valid_answers_def req_thirteen_def in_catalog_def QUESTIONS_def list_all_iff)
  have n2: "length (answers req_thirteen) = 13"
    by (simp add: req_thirteen_def)
  have e2: "assess store_down req_thirteen = Inr (res_thirteen\<lparr>id' := None\<rparr>)"
    by (simp add: eval_defs req_thirteen_def res_thirteen_def eval_nat_numeral)
  have a2: "agree_count ''R'' (answers req_thirteen) = 13"
    by (simp add: agree_count_def req_thirteen_def q_index_def QUESTIONS_def)
  have R: "''R'' \<in> set canonical_order"
    by (simp add: canonical_order_def)
  from repeated_answers_counted [OF v1, of store_ok] obtain r1 where
    r1: "assess store_ok req_twice = Inr r1" and
    c1: "\<forall>c\<in>set canonical_order. map_of (scores r1) c = Some (agree_count c (answers req_twice))"
    by (elim exE conjE)
  from r1 e1 have eq1: "r1 = res_twice" by simp
  from c1 R have k1: "map_of (scores res_twice) ''R'' = Some (agree_count ''R'' (answers req_twice))"
    unfolding eq1 by (rule bspec)
  from repeated_answers_counted [OF v2, of store_down] obtain r2 where
    r2: "assess store_down req_thirteen = Inr r2" and
    c2: "\<forall>c\<in>set canonical_order. map_of (scores r2) c = Some (agree_count c (answers req_thirteen))"
    by (elim exE conjE)
  from r2 e2 have "r2 = res_thirteen\<lparr>id' := None\<rparr>" by simp
  then have eq2: "scores r2 = scores res_thirteen" by simp
  from c2 R have k2: "map_of (scores res_thirteen) ''R'' = Some (agree_count ''R'' (answers req_thirteen))"
    unfolding eq2 by (rule bspec)
  from v1 e1 k1 a1 v2 n2 e2 k2 a2 show ?thesis by (intro conjI)
qed

end
